theory Spec2Isabelle
  imports Main
begin

section \<open>Data model of the robot controller\<close>

text \<open>
  The poses of \<^verbatim>\<open>connect4game/robot/robot.py\<close> are class constants that no
  operation inspects: they are only handed to the driver. They are modelled by their names.
  \<open>Board_pos r c\<close> is \<^verbatim>\<open>__board_pos[r][c]\<close>.
\<close>

datatype pose =
  Better_home_pos | Mag_pos_bef | Mag_pos | Index0_pos | Index1_pos | Board_pos nat nat

datatype gripper_action = OPEN | CLOSE

datatype conveyor_direction = FORWARD | BACKWARD

text \<open>The driver capabilities that the modelled operations hand to the executor.\<close>

datatype action =
  Move_pose pose
| Set_arm_max_velocity int
| Update_tool
| Release_with_tool
| Grasp_with_tool
| Run_conveyor int int conveyor_direction
| Stop_conveyor int

text \<open>
  The exceptions the code distinguishes; \<open>OtherError k\<close> is any other exception class.
\<close>

datatype exn = TypeError | RosTimeoutError | IndexError | OtherError nat

datatype outcome = Returns int | Raises exn

datatype level = Info | Warning | Critical

text \<open>
  What one thread does, in order: an invocation of a driver capability with the
  exception it raised (\<open>None\<close> when it returned), entering and leaving
  \<^verbatim>\<open>with self.__belt_lock\<close>, \<^verbatim>\<open>time.sleep\<close> (in milliseconds), \<^verbatim>\<open>input()\<close>, starting a
  belt thread, and the two ways \<^verbatim>\<open>__current_stack_count\<close> is written, each with the
  value written: \<open>Stack_step\<close> for \<^verbatim>\<open>+= 1\<close> and \<^verbatim>\<open>-= 1\<close>, \<open>Stack_assign\<close> for
  \<^verbatim>\<open>= 0\<close> and \<^verbatim>\<open>= 2\<close>.
\<close>

datatype event =
  Call action "exn option"
| Acquire
| Release
| Sleep nat
| Prompt
| Start_thread conveyor_direction
| Stack_step int
| Stack_assign int

text \<open>
  The environment of one run: \<open>drv env n a\<close> is what the driver answers when the
  \<open>n\<close>-th invocation of the run is capability \<open>a\<close>, and \<open>hw env n\<close> is the list
  \<^verbatim>\<open>hardware_status.value.hardware_errors\<close> at the \<open>n\<close>-th read.
\<close>

record env =
  drv :: "nat \<Rightarrow> action \<Rightarrow> outcome"
  hw :: "nat \<Rightarrow> int list"

record robot =
  current_piece_count :: int
  current_stack_count :: int
  board_calibrated :: bool
  magazine_ready :: bool
  conveyor_id :: int
  trace :: "event list"
  logs :: "level list"
  ncalls :: nat
  nreads :: nat

type_synonym 'a run = "robot \<Rightarrow> ((exn + 'a) \<times> robot) option"

text \<open>The fields set at the end of \<^verbatim>\<open>__init__\<close>, with nothing observed yet.\<close>

definition fresh :: "int \<Rightarrow> robot" where
  "fresh cid = \<lparr>current_piece_count = 0, current_stack_count = 0,
     board_calibrated = False, magazine_ready = False, conveyor_id = cid,
     trace = [], logs = [], ncalls = 0, nreads = 0\<rparr>"

section \<open>Sequencing\<close>

definition ok :: "unit run" where
  "ok s = Some (Inr (), s)"

definition bindM :: "'a run \<Rightarrow> ('a \<Rightarrow> 'b run) \<Rightarrow> 'b run" where
  "bindM m f s =
     (case m s of
        None \<Rightarrow> None
      | Some (Inl e, s') \<Rightarrow> Some (Inl e, s')
      | Some (Inr x, s') \<Rightarrow> f x s')"

text \<open>Statements in order; the first exception ends the block.\<close>

fun run_all :: "unit run list \<Rightarrow> unit run" where
  "run_all [] s = Some (Inr (), s)"
| "run_all (m # ms) s =
     (case m s of
        None \<Rightarrow> None
      | Some (Inl e, s') \<Rightarrow> Some (Inl e, s')
      | Some (Inr u, s') \<Rightarrow> run_all ms s')"

definition logger :: "level \<Rightarrow> unit run" where
  "logger l s = Some (Inr (), s\<lparr>logs := logs s @ [l]\<rparr>)"

definition emit :: "event \<Rightarrow> unit run" where
  "emit e s = Some (Inr (), s\<lparr>trace := trace s @ [e]\<rparr>)"

definition step_stack_count :: "int \<Rightarrow> unit run" where
  "step_stack_count d s =
     Some (Inr (), s\<lparr>current_stack_count := current_stack_count s + d,
                      trace := trace s @ [Stack_step (current_stack_count s + d)]\<rparr>)"

definition assign_stack_count :: "int \<Rightarrow> unit run" where
  "assign_stack_count v s =
     Some (Inr (), s\<lparr>current_stack_count := v, trace := trace s @ [Stack_assign v]\<rparr>)"

definition set_piece_count :: "(robot \<Rightarrow> int) \<Rightarrow> unit run" where
  "set_piece_count f s = Some (Inr (), s\<lparr>current_piece_count := f s\<rparr>)"

text \<open>\<^verbatim>\<open>with self.__belt_lock:\<close> leaves the lock on every exit of its block.\<close>

definition with_belt_lock :: "unit run \<Rightarrow> unit run" where
  "with_belt_lock body s =
     (case body (s\<lparr>trace := trace s @ [Acquire]\<rparr>) of
        None \<Rightarrow> None
      | Some (r, s') \<Rightarrow> Some (r, s'\<lparr>trace := trace s' @ [Release]\<rparr>))"

section \<open>The action executor\<close>

text \<open>
  \<^verbatim>\<open>__execute_robot_action\<close>: the loop ends on a result, on \<^verbatim>\<open>TypeError\<close> (logged
  critical, raised again) and on any exception it does not catch; \<^verbatim>\<open>RosTimeoutError\<close>
  is logged as a warning and the capability is invoked again. Nothing bounds the loop.
\<close>

partial_function (option) execute_robot_action ::
  "env \<Rightarrow> action \<Rightarrow> robot \<Rightarrow> ((exn + int) \<times> robot) option" where
  "execute_robot_action env a s =
     (case drv env (ncalls s) a of
        Returns v \<Rightarrow>
          Some (Inr v, s\<lparr>trace := trace s @ [Call a None], ncalls := Suc (ncalls s)\<rparr>)
      | Raises e \<Rightarrow>
          (if e = TypeError then
             Some (Inl e, s\<lparr>trace := trace s @ [Call a (Some e)], ncalls := Suc (ncalls s),
                              logs := logs s @ [Critical]\<rparr>)
           else if e = RosTimeoutError then
             execute_robot_action env a
               (s\<lparr>trace := trace s @ [Call a (Some e)], ncalls := Suc (ncalls s),
                   logs := logs s @ [Warning]\<rparr>)
           else
             Some (Inl e, s\<lparr>trace := trace s @ [Call a (Some e)], ncalls := Suc (ncalls s)\<rparr>)))"

definition exec :: "env \<Rightarrow> action \<Rightarrow> unit run" where
  "exec env a = bindM (execute_robot_action env a) (\<lambda>v. ok)"

section \<open>Motion and gripper\<close>

definition move_to_pos :: "env \<Rightarrow> pose \<Rightarrow> unit run" where
  "move_to_pos env pos = run_all [exec env (Move_pose pos), logger Info]"

definition move_to_home :: "env \<Rightarrow> unit run" where
  "move_to_home env = run_all [move_to_pos env Better_home_pos, logger Info]"

text \<open>\<^verbatim>\<open>hardware_errors[7]\<close>: an \<^verbatim>\<open>IndexError\<close> when the list has no index 7.\<close>

definition read_tool_state :: "env \<Rightarrow> int run" where
  "read_tool_state env s =
     (if length (hw env (nreads s)) \<le> 7 then Some (Inl IndexError, s\<lparr>nreads := Suc (nreads s)\<rparr>)
      else Some (Inr (hw env (nreads s) ! 7), s\<lparr>nreads := Suc (nreads s)\<rparr>))"

partial_function (option) tool_state_loop ::
  "env \<Rightarrow> int \<Rightarrow> robot \<Rightarrow> ((exn + unit) \<times> robot) option" where
  "tool_state_loop env tool_state s =
     (if tool_state \<noteq> 0 then
        (case run_all [logger Warning, exec env Update_tool] s of
           None \<Rightarrow> None
         | Some (Inl e, s1) \<Rightarrow> Some (Inl e, s1)
         | Some (Inr u, s1) \<Rightarrow>
             (case read_tool_state env s1 of
                None \<Rightarrow> None
              | Some (Inl e, s2) \<Rightarrow> Some (Inl e, s2)
              | Some (Inr t, s2) \<Rightarrow> tool_state_loop env t s2))
      else Some (Inr (), s))"

definition except_IndexError :: "unit run \<Rightarrow> unit run \<Rightarrow> unit run" where
  "except_IndexError body handler s =
     (case body s of
        None \<Rightarrow> None
      | Some (Inl e, s') \<Rightarrow> (if e = IndexError then handler s' else Some (Inl e, s'))
      | Some (Inr u, s') \<Rightarrow> Some (Inr u, s'))"

definition control_gripper :: "env \<Rightarrow> gripper_action \<Rightarrow> unit run" where
  "control_gripper env action =
     run_all
       [except_IndexError (bindM (read_tool_state env) (tool_state_loop env)) (logger Info),
        (if action = OPEN then exec env Release_with_tool else exec env Grasp_with_tool)]"

text \<open>
  \<^verbatim>\<open>__slow_arm_control\<close> as used in a \<^verbatim>\<open>with\<close> statement: the velocity is set before the
  \<^verbatim>\<open>try\<close>, the block runs at the \<^verbatim>\<open>yield\<close>, and \<^verbatim>\<open>finally\<close> sets the velocity to 100
  whatever the block did; an exception of the block is raised again after that, unless
  the \<^verbatim>\<open>finally\<close> clause raises itself.
\<close>

definition slow_arm_control :: "env \<Rightarrow> int \<Rightarrow> unit run \<Rightarrow> unit run" where
  "slow_arm_control env slow_speed body s =
     (case exec env (Set_arm_max_velocity slow_speed) s of
        None \<Rightarrow> None
      | Some (Inl e, s1) \<Rightarrow> Some (Inl e, s1)
      | Some (Inr u, s1) \<Rightarrow>
          (case body s1 of
             None \<Rightarrow> None
           | Some (rb, s2) \<Rightarrow>
               (case exec env (Set_arm_max_velocity 100) s2 of
                  None \<Rightarrow> None
                | Some (Inl e, s3) \<Rightarrow> Some (Inl e, s3)
                | Some (Inr u, s3) \<Rightarrow> Some (rb, s3))))"

definition board_pos :: "(pose \<times> pose) list" where
  "board_pos = [(Board_pos 0 0, Board_pos 0 1)]"

definition calibrate_row :: "env \<Rightarrow> pose \<times> pose \<Rightarrow> unit run" where
  "calibrate_row env board_row =
     run_all
       [move_to_pos env (fst board_row),
        slow_arm_control env 30
          (run_all
             [move_to_pos env (snd board_row),
              logger Info,
              emit Prompt,
              move_to_pos env (fst board_row)])]"

definition calibrate_board :: "env \<Rightarrow> unit run" where
  "calibrate_board env =
     run_all
       (map (calibrate_row env) board_pos @
        [move_to_home env,
         (\<lambda>s. Some (Inr (), s\<lparr>board_calibrated := True\<rparr>))])"

section \<open>Belt and inventory\<close>

definition move_pieces_on_belt :: "env \<Rightarrow> conveyor_direction \<Rightarrow> unit run" where
  "move_pieces_on_belt env direction =
     with_belt_lock
       (run_all
          [logger Info,
           logger Info,
           (\<lambda>s. exec env (Run_conveyor (conveyor_id s) 25 direction) s),
           emit (Sleep 2500),
           (\<lambda>s. exec env (Stop_conveyor (conveyor_id s)) s),
           logger Info])"

text \<open>The body of the \<^verbatim>\<open>while\<close> loop of \<^verbatim>\<open>set_up_game\<close>.\<close>

definition place_piece :: "env \<Rightarrow> int \<Rightarrow> unit run" where
  "place_piece env piece_count =
     run_all
       [logger Info,
        logger Info,
        set_piece_count (\<lambda>s. current_piece_count s + 1),
        move_to_pos env Mag_pos_bef,
        slow_arm_control env 30
          (run_all
             [move_to_pos env Mag_pos,
              control_gripper env CLOSE,
              move_to_pos env Mag_pos_bef]),
        move_to_home env,
        (\<lambda>s. if \<not> board_calibrated s then calibrate_board env s else ok s),
        with_belt_lock
          (run_all
             [logger Info,
              (\<lambda>s. move_to_pos env
                      (if current_stack_count s = 0 then Index0_pos else Index1_pos) s),
              step_stack_count 1,
              control_gripper env OPEN,
              move_to_home env]),
        (\<lambda>s. if current_stack_count s = 2 \<and> current_piece_count s \<noteq> piece_count then
                run_all
                  [logger Info,
                   assign_stack_count 0,
                   emit (Start_thread BACKWARD)] s
              else ok s)]"

partial_function (option) place_loop ::
  "env \<Rightarrow> int \<Rightarrow> robot \<Rightarrow> ((exn + unit) \<times> robot) option" where
  "place_loop env piece_count s =
     (if current_piece_count s \<noteq> piece_count then
        (case place_piece env piece_count s of
           None \<Rightarrow> None
         | Some (Inl e, s') \<Rightarrow> Some (Inl e, s')
         | Some (Inr u, s') \<Rightarrow> place_loop env piece_count s')
      else Some (Inr (), s))"

definition set_up_magazine :: "env \<Rightarrow> unit run" where
  "set_up_magazine env s =
     (if \<not> magazine_ready s then
        run_all
          [move_to_pos env Mag_pos_bef,
           move_to_pos env Mag_pos,
           logger Info,
           logger Info,
           emit Prompt,
           move_to_home env,
           (\<lambda>s. Some (Inr (), s\<lparr>magazine_ready := True\<rparr>))] s
      else Some (Inr (), s))"

definition set_up_game :: "env \<Rightarrow> int \<Rightarrow> unit run" where
  "set_up_game env piece_count =
     run_all [set_up_magazine env, place_loop env piece_count]"

definition grab_piece :: "env \<Rightarrow> unit run" where
  "grab_piece env s =
     (if current_piece_count s = 0 then Some (Inr (), s)
      else
        run_all
          [with_belt_lock
             (run_all
                [(\<lambda>s. move_to_pos env
                        (if current_stack_count s = 1 then Index0_pos else Index1_pos) s),
                 control_gripper env CLOSE,
                 move_to_home env,
                 step_stack_count (- 1),
                 set_piece_count (\<lambda>s. current_piece_count s - 1)]),
           (\<lambda>s. if current_stack_count s = 0 \<and> current_piece_count s \<noteq> 0 then
                   run_all
                     [assign_stack_count 2,
                      emit (Start_thread FORWARD)] s
                 else ok s)] s)"

section \<open>Drivers, sessions and observations\<close>

text \<open>A driver on which no invocation raises, and a gripper status that is clear or absent.\<close>

definition always_succeeds :: "env \<Rightarrow> bool" where
  "always_succeeds env \<longleftrightarrow> (\<forall>n a. \<exists>v. drv env n a = Returns v)"

definition gripper_clear :: "env \<Rightarrow> bool" where
  "gripper_clear env \<longleftrightarrow> (\<forall>n. length (hw env n) \<le> 7 \<or> hw env n ! 7 = 0)"

definition fault_free :: "env \<Rightarrow> bool" where
  "fault_free env \<longleftrightarrow> always_succeeds env \<and> gripper_clear env"

text \<open>The simulation: every capability returns 0 and there is no hardware status list.\<close>

definition always_ok :: env where
  "always_ok = \<lparr>drv = (\<lambda>n a. Returns 0), hw = (\<lambda>n. [])\<rparr>"

text \<open>A driver whose first two invocations time out and whose later ones return 5.\<close>

definition flaky :: env where
  "flaky = \<lparr>drv = (\<lambda>n a. if n < 2 then Raises RosTimeoutError else Returns 5),
            hw = (\<lambda>n. [])\<rparr>"

text \<open>A session is a sequence of calls of the two operations that change the inventory.\<close>

datatype operation = Load int | Grab

fun perform :: "env \<Rightarrow> operation \<Rightarrow> unit run" where
  "perform env (Load piece_count) = set_up_game env piece_count"
| "perform env Grab = grab_piece env"

definition session :: "env \<Rightarrow> operation list \<Rightarrow> unit run" where
  "session env ops = run_all (map (perform env) ops)"

text \<open>The two counters after a run that returned.\<close>

fun counts :: "((exn + unit) \<times> robot) option \<Rightarrow> (int \<times> int) option" where
  "counts (Some (Inr u, s)) = Some (current_piece_count s, current_stack_count s)"
| "counts (Some (Inl e, s)) = None"
| "counts None = None"

text \<open>What the executor hands back for an answer of the driver, and how the trace records it.\<close>

fun result_of :: "outcome \<Rightarrow> exn + int" where
  "result_of (Returns v) = Inr v"
| "result_of (Raises e) = Inl e"

fun raised :: "outcome \<Rightarrow> exn option" where
  "raised (Returns v) = None"
| "raised (Raises e) = Some e"

text \<open>
  The events of \<^verbatim>\<open>__calibrate_board\<close>, of one pass of the loading loop and of one
  \<^verbatim>\<open>grab_piece\<close> with pieces left, when no invocation of the driver raises.
\<close>

definition calibration_events :: "event list" where
  "calibration_events =
     [Call (Move_pose (Board_pos 0 0)) None, Call (Set_arm_max_velocity 30) None,
      Call (Move_pose (Board_pos 0 1)) None, Prompt, Call (Move_pose (Board_pos 0 0)) None,
      Call (Set_arm_max_velocity 100) None, Call (Move_pose Better_home_pos) None]"

definition placement_events :: "int \<Rightarrow> robot \<Rightarrow> event list" where
  "placement_events piece_count s =
     [Call (Move_pose Mag_pos_bef) None, Call (Set_arm_max_velocity 30) None,
      Call (Move_pose Mag_pos) None, Call Grasp_with_tool None,
      Call (Move_pose Mag_pos_bef) None, Call (Set_arm_max_velocity 100) None,
      Call (Move_pose Better_home_pos) None] @
     (if board_calibrated s then [] else calibration_events) @
     [Acquire,
      Call (Move_pose (if current_stack_count s = 0 then Index0_pos else Index1_pos)) None,
      Stack_step (current_stack_count s + 1),
      Call Release_with_tool None, Call (Move_pose Better_home_pos) None, Release] @
     (if current_stack_count s + 1 = 2 \<and> current_piece_count s + 1 \<noteq> piece_count
      then [Stack_assign 0, Start_thread BACKWARD] else [])"

definition grab_events :: "robot \<Rightarrow> event list" where
  "grab_events s =
     [Acquire,
      Call (Move_pose (if current_stack_count s = 1 then Index0_pos else Index1_pos)) None,
      Call Grasp_with_tool None, Call (Move_pose Better_home_pos) None,
      Stack_step (current_stack_count s - 1), Release] @
     (if current_stack_count s - 1 = 0 \<and> current_piece_count s - 1 \<noteq> 0
      then [Stack_assign 2, Start_thread FORWARD] else [])"

text \<open>Loading \<open>piece_count\<close> pieces and then grabbing as many times.\<close>

definition load_then_grab :: "env \<Rightarrow> int \<Rightarrow> unit run" where
  "load_then_grab env piece_count =
     run_all (set_up_game env piece_count # replicate (nat piece_count) (grab_piece env))"

text \<open>
  Placement cycles (a piece released on the belt) and belt advances (a belt thread
  started) in a trace, and the four numbers of a run that returned.
\<close>

fun starts_thread :: "event \<Rightarrow> bool" where
  "starts_thread (Start_thread d) = True"
| "starts_thread e = False"

definition placements :: "event list \<Rightarrow> nat" where
  "placements tr = length (filter (\<lambda>e. e = Call Release_with_tool None) tr)"

definition belt_advances :: "event list \<Rightarrow> nat" where
  "belt_advances tr = length (filter starts_thread tr)"

fun summary :: "((exn + unit) \<times> robot) option \<Rightarrow> (int \<times> int \<times> nat \<times> nat) option" where
  "summary (Some (Inr u, s)) =
     Some (current_piece_count s, current_stack_count s,
           placements (trace s), belt_advances (trace s))"
| "summary (Some (Inl e, s)) = None"
| "summary None = None"

text \<open>
  What holds of the two counters between operations that returned: none is negative, and
  pieces are left only while some are staged.
\<close>

definition staged :: "robot \<Rightarrow> bool" where
  "staged s \<longleftrightarrow> 0 \<le> current_piece_count s \<and> 0 \<le> current_stack_count s \<and>
     (if current_stack_count s = 0 then current_piece_count s = 0 else True)"

text \<open>
  A gripper whose status slot reads 5 on the first two reads and 0 afterwards, on a driver
  that always succeeds.
\<close>

definition overheated :: env where
  "overheated = \<lparr>drv = (\<lambda>n a. Returns 0),
     hw = (\<lambda>n. if n < 2 then [0, 0, 0, 0, 0, 0, 0, 5] else [0, 0, 0, 0, 0, 0, 0, 0])\<rparr>"

text \<open>\<^verbatim>\<open>raise e\<close> as the body of a block.\<close>

definition raise :: "exn \<Rightarrow> unit run" where
  "raise e s = Some (Inl e, s)"

text \<open>
  A driver on which setting the arm velocity may time out but raises nothing else.
\<close>

definition velocity_reliable :: "env \<Rightarrow> bool" where
  "velocity_reliable env \<longleftrightarrow>
     (\<forall>n v e. drv env n (Set_arm_max_velocity v) = Raises e \<longrightarrow> e = RosTimeoutError)"

text \<open>
  Whether the thread holds the belt lock after an event, and after a list of events.
\<close>

fun holds_after :: "bool \<Rightarrow> event \<Rightarrow> bool" where
  "holds_after held Acquire = True"
| "holds_after held Release = False"
| "holds_after held e = held"

fun held_after :: "bool \<Rightarrow> event list \<Rightarrow> bool" where
  "held_after held [] = held"
| "held_after held (e # es) = held_after (holds_after held e) es"

text \<open>
  The events that touch the belt: the conveyor commands with the wait between them, the
  \<^verbatim>\<open>+= 1\<close> and \<^verbatim>\<open>-= 1\<close> on the stack count, and the assignments to it.
\<close>

fun moves_belt :: "event \<Rightarrow> bool" where
  "moves_belt (Call (Run_conveyor i v d) x) = True"
| "moves_belt (Call (Stop_conveyor i) x) = True"
| "moves_belt (Sleep n) = True"
| "moves_belt e = False"

fun steps_stack :: "event \<Rightarrow> bool" where
  "steps_stack (Stack_step v) = True"
| "steps_stack e = False"

fun assigns_stack :: "event \<Rightarrow> bool" where
  "assigns_stack (Stack_assign v) = True"
| "assigns_stack e = False"

text \<open>
  \<open>locked_at P want held tr\<close>: starting with the lock held or not, every event of \<open>tr\<close>
  that satisfies \<open>P\<close> happens while the lock is held (\<open>want\<close>) or while it is not
  (\<open>\<not> want\<close>).
\<close>

fun locked_at :: "(event \<Rightarrow> bool) \<Rightarrow> bool \<Rightarrow> bool \<Rightarrow> event list \<Rightarrow> bool" where
  "locked_at P want held [] = True"
| "locked_at P want held (e # es) =
     ((if P e then held = want else True) \<and> locked_at P want (holds_after held e) es)"

text \<open>The discipline as claimed: everything that touches the belt happens under the lock.\<close>

definition all_under_lock :: "event list \<Rightarrow> bool" where
  "all_under_lock tr \<longleftrightarrow>
     locked_at moves_belt True False tr \<and> locked_at steps_stack True False tr \<and>
     locked_at assigns_stack True False tr"

text \<open>
  The discipline of the code: conveyor commands and the steps of the stack count under
  the lock, the assignments to the stack count outside it, and the lock left at the end.
\<close>

definition disciplined :: "event list \<Rightarrow> bool" where
  "disciplined tr \<longleftrightarrow>
     locked_at moves_belt True False tr \<and> locked_at steps_stack True False tr \<and>
     locked_at assigns_stack False False tr \<and> \<not> held_after False tr"

fun events :: "((exn + unit) \<times> robot) option \<Rightarrow> event list" where
  "events (Some (r, s)) = trace s"
| "events None = []"

section \<open>The executor retries on timeouts only\<close>

lemma execute_returns:
  assumes "drv env (ncalls s) a = Returns v"
  shows "execute_robot_action env a s =
    Some (Inr v, s\<lparr>trace := trace s @ [Call a None], ncalls := Suc (ncalls s)\<rparr>)"
  using assms by (subst execute_robot_action.simps) simp

lemma execute_timeout:
  assumes "drv env (ncalls s) a = Raises RosTimeoutError"
  shows "execute_robot_action env a s =
    execute_robot_action env a
      (s\<lparr>trace := trace s @ [Call a (Some RosTimeoutError)], ncalls := Suc (ncalls s),
          logs := logs s @ [Warning]\<rparr>)"
  using assms by (subst execute_robot_action.simps) simp

lemma execute_final:
  assumes "drv env (ncalls s) a = out" and "out \<noteq> Raises RosTimeoutError"
  shows "execute_robot_action env a s =
    Some (result_of out,
          s\<lparr>trace := trace s @ [Call a (raised out)], ncalls := Suc (ncalls s),
             logs := logs s @ (if out = Raises TypeError then [Critical] else [])\<rparr>)"
proof (cases out)
  case (Returns v)
  with assms show ?thesis by (simp add: execute_returns)
next
  case (Raises e)
  with assms show ?thesis by (subst execute_robot_action.simps) simp
qed

text \<open>
  C2. A capability that raises the timeout on its first \<open>N\<close> invocations and then answers
  anything else is invoked \<open>N + 1\<close> times: a result is returned, a \<^verbatim>\<open>TypeError\<close> is
  logged critical and raised, any other exception is raised, and only the \<open>N\<close> timeouts
  were logged as warnings and retried.
\<close>

theorem execute_robot_action_retries:
  assumes "\<forall>i<N. drv env (ncalls s + i) a = Raises RosTimeoutError"
    and "drv env (ncalls s + N) a = out"
    and "out \<noteq> Raises RosTimeoutError"
  shows "execute_robot_action env a s =
    Some (result_of out,
          s\<lparr>trace := trace s @ replicate N (Call a (Some RosTimeoutError)) @ [Call a (raised out)],
             ncalls := ncalls s + N + 1,
             logs := logs s @ replicate N Warning @
               (if out = Raises TypeError then [Critical] else [])\<rparr>)"
  using assms
proof (induction N arbitrary: s)
  case 0
  then show ?case by (simp add: execute_final)
next
  case (Suc N)
  let ?s1 = "s\<lparr>trace := trace s @ [Call a (Some RosTimeoutError)], ncalls := Suc (ncalls s),
               logs := logs s @ [Warning]\<rparr>"
  from Suc.prems(1) have first: "drv env (ncalls s) a = Raises RosTimeoutError"
    by (metis add.right_neutral zero_less_Suc)
  have rest: "\<forall>i<N. drv env (ncalls ?s1 + i) a = Raises RosTimeoutError"
  proof (intro allI impI)
    fix i assume "i < N"
    then have "Suc i < Suc N" by simp
    with Suc.prems(1) have "drv env (ncalls s + Suc i) a = Raises RosTimeoutError" by blast
    then show "drv env (ncalls ?s1 + i) a = Raises RosTimeoutError" by simp
  qed
  have last: "drv env (ncalls ?s1 + N) a = out" using Suc.prems(2) by simp
  have "execute_robot_action env a s = execute_robot_action env a ?s1"
    using first by (rule execute_timeout)
  also have "\<dots> = Some (result_of out,
          ?s1\<lparr>trace := trace ?s1 @ replicate N (Call a (Some RosTimeoutError)) @ [Call a (raised out)],
             ncalls := ncalls ?s1 + N + 1,
             logs := logs ?s1 @ replicate N Warning @
               (if out = Raises TypeError then [Critical] else [])\<rparr>)"
    using Suc.IH [OF rest last Suc.prems(3)] .
  finally show ?case by simp
qed

theorem execute_robot_action_retries_witness:
  "drv flaky 0 Update_tool = Raises RosTimeoutError \<and>
   drv flaky 1 Update_tool = Raises RosTimeoutError \<and>
   drv flaky 2 Update_tool = Returns 5 \<and>
   Returns 5 \<noteq> Raises RosTimeoutError \<and>
   execute_robot_action flaky Update_tool (fresh 0) =
     Some (Inr 5,
       (fresh 0)\<lparr>trace := [Call Update_tool (Some RosTimeoutError),
                            Call Update_tool (Some RosTimeoutError), Call Update_tool None],
                  ncalls := 3, logs := [Warning, Warning]\<rparr>)"
  using execute_robot_action_retries [of 2 flaky "fresh 0" Update_tool "Returns 5"]
  by (simp add: flaky_def fresh_def numeral_2_eq_2 less_Suc_eq)

section \<open>Grabbing from an empty inventory\<close>

text \<open>
  C7. With \<^verbatim>\<open>__current_piece_count\<close> at zero, \<^verbatim>\<open>grab_piece\<close> returns at once: the
  session state, the trace of driver invocations and the log are what they were.
\<close>

theorem grab_piece_empty_is_noop:
  assumes "current_piece_count s = 0"
  shows "grab_piece env s = Some (Inr (), s)"
  using assms by (simp add: grab_piece_def)

theorem grab_piece_empty_is_noop_witness:
  "current_piece_count (fresh 0) = 0 \<and> grab_piece always_ok (fresh 0) = Some (Inr (), fresh 0)"
  using grab_piece_empty_is_noop [of "fresh 0" always_ok]
  by (simp add: fresh_def)

section \<open>Operations on a driver that never fails\<close>

lemma exec_ok:
  assumes "always_succeeds env"
  shows "exec env a s =
    Some (Inr (), s\<lparr>trace := trace s @ [Call a None], ncalls := Suc (ncalls s)\<rparr>)"
proof -
  from assms obtain v where "drv env (ncalls s) a = Returns v"
    unfolding always_succeeds_def by blast
  then show ?thesis
    by (simp add: exec_def bindM_def ok_def execute_returns)
qed

lemma move_to_pos_ok:
  assumes "always_succeeds env"
  shows "move_to_pos env p s =
    Some (Inr (), s\<lparr>trace := trace s @ [Call (Move_pose p) None], logs := logs s @ [Info],
                     ncalls := Suc (ncalls s)\<rparr>)"
  using assms by (simp add: move_to_pos_def exec_ok logger_def)

lemma move_to_home_ok:
  assumes "always_succeeds env"
  shows "move_to_home env s =
    Some (Inr (), s\<lparr>trace := trace s @ [Call (Move_pose Better_home_pos) None],
                     logs := logs s @ [Info, Info], ncalls := Suc (ncalls s)\<rparr>)"
  using assms by (simp add: move_to_home_def move_to_pos_ok logger_def)

lemma control_gripper_ok:
  assumes "fault_free env"
  shows "control_gripper env g s =
    Some (Inr (),
      s\<lparr>trace := trace s @
           [Call (if g = OPEN then Release_with_tool else Grasp_with_tool) None],
         logs := logs s @ (if length (hw env (nreads s)) \<le> 7 then [Info] else []),
         ncalls := Suc (ncalls s), nreads := Suc (nreads s)\<rparr>)"
proof -
  from assms have ok: "always_succeeds env"
    and clr: "length (hw env (nreads s)) \<le> 7 \<or> hw env (nreads s) ! 7 = 0"
    unfolding fault_free_def gripper_clear_def by auto
  show ?thesis
  proof (cases "length (hw env (nreads s)) \<le> 7")
    case True
    then show ?thesis using ok
      by (simp add: control_gripper_def except_IndexError_def bindM_def read_tool_state_def
          logger_def exec_ok)
  next
    case False
    with clr have z: "hw env (nreads s) ! 7 = 0" by simp
    show ?thesis using ok False z
      by (simp add: control_gripper_def except_IndexError_def bindM_def read_tool_state_def
          tool_state_loop.simps exec_ok)
  qed
qed

lemma place_piece_ok:
  assumes "fault_free env"
  shows "\<exists>s'. place_piece env N s = Some (Inr (), s') \<and>
     current_piece_count s' = current_piece_count s + 1 \<and>
     current_stack_count s' =
       (if current_stack_count s + 1 = 2 \<and> current_piece_count s + 1 \<noteq> N then 0
        else current_stack_count s + 1) \<and>
     board_calibrated s' \<and> magazine_ready s' = magazine_ready s \<and>
     conveyor_id s' = conveyor_id s \<and>
     trace s' = trace s @ placement_events N s"
proof -
  from assms have ok: "always_succeeds env" by (simp add: fault_free_def)
  show ?thesis
    using assms ok
    by (simp add: place_piece_def board_pos_def calibrate_row_def calibrate_board_def
        move_to_pos_ok move_to_home_ok slow_arm_control_def exec_ok logger_def emit_def
        control_gripper_ok set_piece_count_def step_stack_count_def assign_stack_count_def
        with_belt_lock_def ok_def placement_events_def calibration_events_def)
qed

lemma grab_piece_ok:
  assumes "fault_free env" and "current_piece_count s \<noteq> 0"
  shows "\<exists>s'. grab_piece env s = Some (Inr (), s') \<and>
     current_piece_count s' = current_piece_count s - 1 \<and>
     current_stack_count s' =
       (if current_stack_count s - 1 = 0 \<and> current_piece_count s - 1 \<noteq> 0 then 2
        else current_stack_count s - 1) \<and>
     board_calibrated s' = board_calibrated s \<and> magazine_ready s' = magazine_ready s \<and>
     conveyor_id s' = conveyor_id s \<and>
     trace s' = trace s @ grab_events s"
proof -
  from assms have ok: "always_succeeds env" by (simp add: fault_free_def)
  show ?thesis
    using assms ok
    by (simp add: grab_piece_def move_to_pos_ok move_to_home_ok emit_def control_gripper_ok
        set_piece_count_def step_stack_count_def assign_stack_count_def with_belt_lock_def
        ok_def grab_events_def)
qed

lemma set_up_magazine_ok:
  assumes "always_succeeds env"
  shows "\<exists>s'. set_up_magazine env s = Some (Inr (), s') \<and>
     current_piece_count s' = current_piece_count s \<and>
     current_stack_count s' = current_stack_count s \<and>
     board_calibrated s' = board_calibrated s \<and> magazine_ready s' \<and>
     conveyor_id s' = conveyor_id s \<and>
     trace s' = trace s @
       (if magazine_ready s then []
        else [Call (Move_pose Mag_pos_bef) None, Call (Move_pose Mag_pos) None, Prompt,
              Call (Move_pose Better_home_pos) None])"
  using assms
  by (simp add: set_up_magazine_def move_to_pos_ok move_to_home_ok logger_def emit_def)

lemma move_pieces_on_belt_ok:
  assumes "always_succeeds env"
  shows "\<exists>s'. move_pieces_on_belt env d s = Some (Inr (), s') \<and>
     current_piece_count s' = current_piece_count s \<and>
     current_stack_count s' = current_stack_count s \<and>
     trace s' = trace s @
       [Acquire, Call (Run_conveyor (conveyor_id s) 25 d) None, Sleep 2500,
        Call (Stop_conveyor (conveyor_id s)) None, Release]"
  using assms
  by (simp add: move_pieces_on_belt_def with_belt_lock_def exec_ok logger_def emit_def)

section \<open>The loading loop\<close>

lemma place_loop_invariant:
  assumes ff: "fault_free env"
    and le: "current_piece_count s \<le> N"
    and inv: "Inv s"
    and step: "\<And>s s'. Inv s \<Longrightarrow> current_piece_count s < N \<Longrightarrow>
               place_piece env N s = Some (Inr (), s') \<Longrightarrow> Inv s'"
  shows "\<exists>s'. place_loop env N s = Some (Inr (), s') \<and> Inv s' \<and> current_piece_count s' = N"
  using le inv
proof (induction "nat (N - current_piece_count s)" arbitrary: s)
  case 0
  then have "current_piece_count s = N" by simp
  with 0 show ?case by (subst place_loop.simps) simp
next
  case (Suc k)
  then have lt: "current_piece_count s < N" by linarith
  from place_piece_ok [OF ff, of N s] obtain s1 where
    pp: "place_piece env N s = Some (Inr (), s1)" and
    pc: "current_piece_count s1 = current_piece_count s + 1" by blast
  have inv1: "Inv s1" using step [OF Suc.prems(2) lt pp] .
  have "k = nat (N - current_piece_count s1)" using Suc.hyps(2) pc by linarith
  moreover have "current_piece_count s1 \<le> N" using lt pc by simp
  ultimately obtain s' where
    "place_loop env N s1 = Some (Inr (), s')" "Inv s'" "current_piece_count s' = N"
    using Suc.hyps(1) inv1 by blast
  moreover have "place_loop env N s = place_loop env N s1"
    using lt pp by (subst place_loop.simps) simp
  ultimately show ?case by auto
qed

lemma place_loop_returns_le:
  assumes run: "place_loop env N s = Some y" and ff: "fault_free env"
  shows "current_piece_count s \<le> N"
proof -
  have "fault_free env \<longrightarrow> current_piece_count s \<le> N"
  proof (rule place_loop.raw_induct
      [where P = "\<lambda>env N s y. fault_free env \<longrightarrow> current_piece_count s \<le> N", OF _ run])
    fix loop env N s y
    assume IH: "\<And>env N s y. loop env N s = Some y \<Longrightarrow>
                  fault_free env \<longrightarrow> current_piece_count s \<le> N"
      and body: "(if current_piece_count s \<noteq> N then
                    (case place_piece env N s of
                       None \<Rightarrow> None
                     | Some (Inl e, s') \<Rightarrow> Some (Inl e, s')
                     | Some (Inr u, s') \<Rightarrow> loop env N s')
                  else Some (Inr (), s)) = Some y"
    show "fault_free env \<longrightarrow> current_piece_count s \<le> N"
    proof
      assume ff: "fault_free env"
      show "current_piece_count s \<le> N"
      proof (cases "current_piece_count s = N")
        case True
        then show ?thesis by simp
      next
        case False
        from place_piece_ok [OF ff, of N s] obtain s1 where
          pp: "place_piece env N s = Some (Inr (), s1)" and
          pc: "current_piece_count s1 = current_piece_count s + 1" by blast
        from body False pp have "loop env N s1 = Some y" by simp
        from IH [OF this] ff have "current_piece_count s1 \<le> N" by simp
        with pc show ?thesis by simp
      qed
    qed
  qed
  with ff show ?thesis by simp
qed

text \<open>The loop as \<^verbatim>\<open>set_up_game\<close> reaches it, after the magazine has been placed.\<close>

lemma set_up_game_unfold:
  assumes ff: "fault_free env"
  shows "\<exists>s0. set_up_game env N s = place_loop env N s0 \<and>
     current_piece_count s0 = current_piece_count s \<and>
     current_stack_count s0 = current_stack_count s \<and>
     board_calibrated s0 = board_calibrated s \<and> magazine_ready s0 \<and>
     conveyor_id s0 = conveyor_id s \<and>
     trace s0 = trace s @
       (if magazine_ready s then []
        else [Call (Move_pose Mag_pos_bef) None, Call (Move_pose Mag_pos) None, Prompt,
              Call (Move_pose Better_home_pos) None])"
proof -
  from ff have ok: "always_succeeds env" by (simp add: fault_free_def)
  from set_up_magazine_ok [OF ok, of s] obtain s0 where
    m: "set_up_magazine env s = Some (Inr (), s0)" and
    rest: "current_piece_count s0 = current_piece_count s"
      "current_stack_count s0 = current_stack_count s"
      "board_calibrated s0 = board_calibrated s" "magazine_ready s0"
      "conveyor_id s0 = conveyor_id s"
      "trace s0 = trace s @
       (if magazine_ready s then []
        else [Call (Move_pose Mag_pos_bef) None, Call (Move_pose Mag_pos) None, Prompt,
              Call (Move_pose Better_home_pos) None])" by blast
  have "set_up_game env N s = place_loop env N s0"
    using m by (simp add: set_up_game_def split: option.splits sum.splits prod.splits)
  with rest show ?thesis by blast
qed

lemma set_up_game_terminates_iff_aux:
  assumes ff: "fault_free env"
  shows "(\<exists>s'. set_up_game env N s = Some (Inr (), s')) \<longleftrightarrow> current_piece_count s \<le> N"
    and "(\<exists>r. set_up_game env N s = Some r) \<longleftrightarrow> current_piece_count s \<le> N"
proof -
  from set_up_game_unfold [OF ff, of N s] obtain s0 where
    u: "set_up_game env N s = place_loop env N s0" and
    pc: "current_piece_count s0 = current_piece_count s" by blast
  have a: "current_piece_count s \<le> N \<Longrightarrow> \<exists>s'. set_up_game env N s = Some (Inr (), s')"
  proof -
    assume "current_piece_count s \<le> N"
    then have "current_piece_count s0 \<le> N" using pc by simp
    from place_loop_invariant [OF ff this, of "\<lambda>s. True"] u show ?thesis by auto
  qed
  have b: "\<And>r. set_up_game env N s = Some r \<Longrightarrow> current_piece_count s \<le> N"
    using place_loop_returns_le [OF _ ff, of N s0] u pc by simp
  show "(\<exists>s'. set_up_game env N s = Some (Inr (), s')) \<longleftrightarrow> current_piece_count s \<le> N"
    using a b by blast
  show "(\<exists>r. set_up_game env N s = Some r) \<longleftrightarrow> current_piece_count s \<le> N"
    using a b by blast
qed

lemma fault_free_always_ok: "fault_free always_ok"
  by (simp add: fault_free_def always_succeeds_def gripper_clear_def always_ok_def)

lemma place_piece_effect:
  assumes "fault_free env" and "place_piece env N s = Some (Inr (), s')"
  shows "current_piece_count s' = current_piece_count s + 1"
    and "current_stack_count s' =
       (if current_stack_count s + 1 = 2 \<and> current_piece_count s + 1 \<noteq> N then 0
        else current_stack_count s + 1)"
    and "trace s' = trace s @ placement_events N s"
  using place_piece_ok [OF assms(1), of N s] assms(2) by auto

lemma grab_piece_effect:
  assumes "fault_free env" and "current_piece_count s \<noteq> 0"
    and "grab_piece env s = Some (Inr (), s')"
  shows "current_piece_count s' = current_piece_count s - 1"
    and "current_stack_count s' =
       (if current_stack_count s - 1 = 0 \<and> current_piece_count s - 1 \<noteq> 0 then 2
        else current_stack_count s - 1)"
    and "trace s' = trace s @ grab_events s"
  using grab_piece_ok [OF assms(1,2)] assms(3) by auto

text \<open>Loading from a state that satisfies an invariant of the loop body.\<close>

lemma set_up_game_invariant:
  assumes ff: "fault_free env"
    and le: "current_piece_count s \<le> N"
    and init: "\<And>s0. current_piece_count s0 = current_piece_count s \<Longrightarrow>
                 current_stack_count s0 = current_stack_count s \<Longrightarrow>
                 trace s0 = trace s @
                   (if magazine_ready s then []
                    else [Call (Move_pose Mag_pos_bef) None, Call (Move_pose Mag_pos) None,
                          Prompt, Call (Move_pose Better_home_pos) None]) \<Longrightarrow> Inv s0"
    and step: "\<And>s s'. Inv s \<Longrightarrow> current_piece_count s < N \<Longrightarrow>
               place_piece env N s = Some (Inr (), s') \<Longrightarrow> Inv s'"
  shows "\<exists>s'. set_up_game env N s = Some (Inr (), s') \<and> Inv s' \<and> current_piece_count s' = N"
proof -
  from set_up_game_unfold [OF ff, of N s] obtain s0 where
    u: "set_up_game env N s = place_loop env N s0" and
    pc: "current_piece_count s0 = current_piece_count s" and
    sc: "current_stack_count s0 = current_stack_count s" and
    tr: "trace s0 = trace s @
       (if magazine_ready s then []
        else [Call (Move_pose Mag_pos_bef) None, Call (Move_pose Mag_pos) None, Prompt,
              Call (Move_pose Better_home_pos) None])" by blast
  have "Inv s0" using init [OF pc sc tr] .
  moreover have "current_piece_count s0 \<le> N" using le pc by simp
  ultimately show ?thesis
    using place_loop_invariant [OF ff, of s0 N Inv] step u by auto
qed

section \<open>Termination of loading\<close>

text \<open>
  C10. On a driver that never fails, with a clear gripper status and an operator who
  confirms, \<^verbatim>\<open>set_up_game\<close> returns exactly when the target is at least the piece count
  of the session at the call; with a smaller target the loop never ends.
\<close>

theorem set_up_game_terminates_iff:
  assumes "fault_free env"
  shows "(\<exists>r. set_up_game env piece_count s = Some r) \<longleftrightarrow>
         current_piece_count s \<le> piece_count"
  using set_up_game_terminates_iff_aux(2) [OF assms] .

theorem set_up_game_terminates_iff_witness:
  "fault_free always_ok \<and>
   (\<exists>r. set_up_game always_ok 1 (fresh 0) = Some r) \<and>
   set_up_game always_ok (- 1) (fresh 0) = None"
proof -
  have a: "\<exists>r. set_up_game always_ok 1 (fresh 0) = Some r"
    using set_up_game_terminates_iff [OF fault_free_always_ok, of 1 "fresh 0"]
    by (simp add: fresh_def)
  have "\<not> (\<exists>r. set_up_game always_ok (- 1) (fresh 0) = Some r)"
    using set_up_game_terminates_iff [OF fault_free_always_ok, of "- 1" "fresh 0"]
    by (simp add: fresh_def)
  then have b: "set_up_game always_ok (- 1) (fresh 0) = None"
    by (cases "set_up_game always_ok (- 1) (fresh 0)") auto
  from a b fault_free_always_ok show ?thesis by blast
qed

section \<open>Loading and then grabbing\<close>

lemma load_from_empty:
  assumes ff: "fault_free env" and n: "0 \<le> N"
    and pc: "current_piece_count s = 0" and sc: "current_stack_count s = 0"
  shows "\<exists>s'. set_up_game env N s = Some (Inr (), s') \<and> current_piece_count s' = N \<and>
     current_stack_count s' = (if N = 0 then 0 else if even N then 2 else 1)"
proof -
  let ?Inv = "\<lambda>s. 0 \<le> current_piece_count s \<and>
     current_stack_count s =
       (if current_piece_count s = N \<and> N \<noteq> 0 \<and> even N then 2
        else current_piece_count s mod 2)"
  have le: "current_piece_count s \<le> N" using n pc by simp
  have "\<exists>s'. set_up_game env N s = Some (Inr (), s') \<and> ?Inv s' \<and> current_piece_count s' = N"
  proof (rule set_up_game_invariant [OF ff le])
    fix s0
    assume "current_piece_count s0 = current_piece_count s"
      "current_stack_count s0 = current_stack_count s"
    then show "?Inv s0" using pc sc n by auto
  next
    fix t t'
    assume inv: "?Inv t" and lt: "current_piece_count t < N"
      and pp: "place_piece env N t = Some (Inr (), t')"
    note eff = place_piece_effect(1,2) [OF ff pp]
    from inv lt have sc_t: "current_stack_count t = current_piece_count t mod 2" by auto
    show "?Inv t'"
    proof (cases "even (current_piece_count t)")
      case True
      then have "current_stack_count t = 0" using sc_t by presburger
      moreover have "odd (current_piece_count t + 1)" using True by simp
      ultimately show ?thesis using eff inv True
        by (auto simp: odd_iff_mod_2_eq_one)
    next
      case False
      then have "current_stack_count t = 1" using sc_t by presburger
      moreover have "even (current_piece_count t + 1)" using False by simp
      ultimately show ?thesis using eff inv lt by auto
    qed
  qed
  then show ?thesis using n by (auto split: if_splits simp: odd_iff_mod_2_eq_one)
qed

lemma grab_until_empty:
  assumes ff: "fault_free env"
  shows "current_piece_count s = int k \<Longrightarrow>
     current_stack_count s = (if k = 0 then 0 else if even k then 2 else 1) \<Longrightarrow>
     \<exists>s'. run_all (replicate k (grab_piece env)) s = Some (Inr (), s') \<and>
       current_piece_count s' = 0 \<and> current_stack_count s' = 0"
proof (induction k arbitrary: s)
  case 0
  then show ?case by simp
next
  case (Suc k)
  from Suc.prems(1) have nz: "current_piece_count s \<noteq> 0" by simp
  from grab_piece_ok [OF ff nz] obtain s1 where
    g: "grab_piece env s = Some (Inr (), s1)" and
    pc1: "current_piece_count s1 = current_piece_count s - 1" and
    sc1: "current_stack_count s1 =
       (if current_stack_count s - 1 = 0 \<and> current_piece_count s - 1 \<noteq> 0 then 2
        else current_stack_count s - 1)" by blast
  have a: "current_piece_count s1 = int k" using pc1 Suc.prems(1) by simp
  have b: "current_stack_count s1 = (if k = 0 then 0 else if even k then 2 else 1)"
    using sc1 Suc.prems by (auto split: if_splits)
  from Suc.IH [OF a b] obtain s' where
    "run_all (replicate k (grab_piece env)) s1 = Some (Inr (), s')"
    "current_piece_count s' = 0" "current_stack_count s' = 0" by blast
  then show ?case using g by simp
qed

text \<open>
  C3. From a fresh session, \<^verbatim>\<open>set_up_game(N)\<close> followed by \<open>N\<close> calls of \<^verbatim>\<open>grab_piece\<close>
  returns, with both counters at zero, for every \<open>N \<ge> 0\<close>.
\<close>

theorem load_then_grab_empties:
  assumes "fault_free env" and "0 \<le> piece_count"
  shows "counts (load_then_grab env piece_count (fresh cid)) = Some (0, 0)"
proof -
  have "current_piece_count (fresh cid) = 0" "current_stack_count (fresh cid) = 0"
    by (simp_all add: fresh_def)
  from load_from_empty [OF assms this] obtain s1 where
    l: "set_up_game env piece_count (fresh cid) = Some (Inr (), s1)" and
    pc: "current_piece_count s1 = piece_count" and
    sc: "current_stack_count s1 =
      (if piece_count = 0 then 0 else if even piece_count then 2 else 1)" by blast
  have a: "current_piece_count s1 = int (nat piece_count)" using pc assms(2) by simp
  have b: "current_stack_count s1 =
      (if nat piece_count = 0 then 0 else if even (nat piece_count) then 2 else 1)"
    using sc assms(2) by (auto simp: even_nat_iff)
  from grab_until_empty [OF assms(1) a b] obtain s' where
    "run_all (replicate (nat piece_count) (grab_piece env)) s1 = Some (Inr (), s')"
    "current_piece_count s' = 0" "current_stack_count s' = 0" by blast
  then show ?thesis using l by (simp add: load_then_grab_def)
qed

theorem load_then_grab_empties_witness:
  "fault_free always_ok \<and> (0::int) \<le> 3 \<and>
   counts (load_then_grab always_ok 3 (fresh 0)) = Some (0, 0)"
  using load_then_grab_empties [OF fault_free_always_ok, of 3 0] fault_free_always_ok
  by simp

section \<open>Loading twice\<close>

lemma load_stacks_up:
  assumes ff: "fault_free env"
    and le: "current_piece_count s \<le> N"
    and eq: "current_stack_count s = current_piece_count s"
    and far: "2 \<le> current_piece_count s \<or> N \<le> 2"
  shows "\<exists>s'. set_up_game env N s = Some (Inr (), s') \<and>
     current_piece_count s' = N \<and> current_stack_count s' = N"
proof -
  let ?Inv = "\<lambda>t. current_stack_count t = current_piece_count t \<and>
     current_piece_count s \<le> current_piece_count t"
  have "\<exists>s'. set_up_game env N s = Some (Inr (), s') \<and> ?Inv s' \<and> current_piece_count s' = N"
  proof (rule set_up_game_invariant [OF ff le])
    fix s0
    assume "current_piece_count s0 = current_piece_count s"
      "current_stack_count s0 = current_stack_count s"
    then show "?Inv s0" using eq by simp
  next
    fix t t'
    assume inv: "?Inv t" and lt: "current_piece_count t < N"
      and pp: "place_piece env N t = Some (Inr (), t')"
    note eff = place_piece_effect(1,2) [OF ff pp]
    show "?Inv t'" using eff inv lt far by auto
  qed
  then show ?thesis by auto
qed

text \<open>
  C1. The claim fails on the code: after \<^verbatim>\<open>set_up_game(2)\<close> the belt holds two pieces, and
  \<^verbatim>\<open>set_up_game(3)\<close> then places a third one at index 1 and counts it, so the stack
  count is 3, which the comment at its declaration excludes.
\<close>

theorem stack_count_reaches_three:
  "counts (session always_ok [Load 2, Load 3] (fresh 0)) = Some (3, 3)"
proof -
  have "current_piece_count (fresh 0) \<le> 2"
    "current_stack_count (fresh 0) = current_piece_count (fresh 0)"
    by (simp_all add: fresh_def)
  from load_stacks_up [OF fault_free_always_ok this] obtain s1 where
    l1: "set_up_game always_ok 2 (fresh 0) = Some (Inr (), s1)" and
    c1: "current_piece_count s1 = 2" "current_stack_count s1 = 2" by auto
  have "current_piece_count s1 \<le> 3" "current_stack_count s1 = current_piece_count s1"
    "2 \<le> current_piece_count s1 \<or> (3::int) \<le> 2"
    using c1 by simp_all
  from load_stacks_up [OF fault_free_always_ok this] obtain s2 where
    l2: "set_up_game always_ok 3 s1 = Some (Inr (), s2)" and
    c2: "current_piece_count s2 = 3" "current_stack_count s2 = 3" by auto
  show ?thesis using l1 l2 c2 by (simp add: session_def)
qed

section \<open>Loading four pieces\<close>

lemma placements_append: "placements (xs @ ys) = placements xs + placements ys"
  by (simp add: placements_def)

lemma belt_advances_append: "belt_advances (xs @ ys) = belt_advances xs + belt_advances ys"
  by (simp add: belt_advances_def)

lemma placements_placement_events: "placements (placement_events N t) = 1"
  by (simp add: placements_def placement_events_def calibration_events_def)

lemma belt_advances_placement_events:
  "belt_advances (placement_events N t) =
     (if current_stack_count t + 1 = 2 \<and> current_piece_count t + 1 \<noteq> N then 1 else 0)"
  by (simp add: belt_advances_def placement_events_def calibration_events_def)

lemma set_up_game_four:
  assumes ff: "fault_free env"
  shows "summary (set_up_game env 4 (fresh cid)) = Some (4, 2, 4, 1)"
proof -
  let ?Inv = "\<lambda>t. (current_piece_count t, current_stack_count t,
                   placements (trace t), belt_advances (trace t)) \<in>
     {(0, 0, 0, 0), (1, 1, 1, 0), (2, 0, 2, 1), (3, 1, 3, 1), (4, 2, 4, 1)}"
  have le: "current_piece_count (fresh cid) \<le> 4" by (simp add: fresh_def)
  have "\<exists>s'. set_up_game env 4 (fresh cid) = Some (Inr (), s') \<and> ?Inv s' \<and>
     current_piece_count s' = 4"
  proof (rule set_up_game_invariant [OF ff le])
    fix s0
    assume "current_piece_count s0 = current_piece_count (fresh cid)"
      "current_stack_count s0 = current_stack_count (fresh cid)"
      "trace s0 = trace (fresh cid) @
         (if magazine_ready (fresh cid) then []
          else [Call (Move_pose Mag_pos_bef) None, Call (Move_pose Mag_pos) None, Prompt,
                Call (Move_pose Better_home_pos) None])"
    then show "?Inv s0"
      by (simp add: fresh_def placements_def belt_advances_def)
  next
    fix t t'
    assume inv: "?Inv t" and lt: "current_piece_count t < 4"
      and pp: "place_piece env 4 t = Some (Inr (), t')"
    note eff = place_piece_effect [OF ff pp]
    show "?Inv t'"
      using inv lt eff
      by (auto simp: placements_append belt_advances_append placements_placement_events
          belt_advances_placement_events)
  qed
  then show ?thesis by auto
qed

text \<open>
  C5, as stated, fails: \<^verbatim>\<open>set_up_game(4)\<close> on a driver that always succeeds does not end
  with the stack count at 0 after two belt advances.
\<close>

theorem set_up_game_four_counterexample:
  "summary (set_up_game always_ok 4 (fresh 0)) \<noteq> Some (4, 0, 4, 2)"
  using set_up_game_four [OF fault_free_always_ok, of 0] by simp

text \<open>
  C5, amended. \<^verbatim>\<open>set_up_game(4)\<close> from a fresh session on a driver that always succeeds
  returns after 4 placement cycles and 1 belt advance (after the second piece), with the
  piece count at 4 and the stack count at 2.
\<close>

theorem set_up_game_four_cycles:
  assumes "fault_free env"
  shows "summary (set_up_game env 4 (fresh cid)) = Some (4, 2, 4, 1)"
  using assms by (rule set_up_game_four)

theorem set_up_game_four_cycles_witness:
  "fault_free always_ok \<and> summary (set_up_game always_ok 4 (fresh 0)) = Some (4, 2, 4, 1)"
  using set_up_game_four_cycles [OF fault_free_always_ok, of 0] fault_free_always_ok by simp

section \<open>Which slot the arm goes to\<close>

lemma staged_fresh: "staged (fresh cid)"
  by (simp add: staged_def fresh_def)

lemma set_up_game_staged:
  assumes ff: "fault_free env" and st: "staged s"
    and run: "set_up_game env N s = Some (Inr (), s')"
  shows "staged s'"
proof -
  let ?Inv = "\<lambda>t. 0 \<le> current_piece_count t \<and> 0 \<le> current_stack_count t \<and>
     (current_stack_count t = 0 \<longrightarrow> current_piece_count t = 0 \<or> current_piece_count t \<noteq> N)"
  have le: "current_piece_count s \<le> N"
    using set_up_game_terminates_iff_aux(2) [OF ff, of N s] run by auto
  have "\<exists>s'. set_up_game env N s = Some (Inr (), s') \<and> ?Inv s' \<and> current_piece_count s' = N"
  proof (rule set_up_game_invariant [OF ff le])
    fix s0
    assume "current_piece_count s0 = current_piece_count s"
      "current_stack_count s0 = current_stack_count s"
    then show "?Inv s0" using st by (auto simp: staged_def split: if_splits)
  next
    fix t t'
    assume inv: "?Inv t" and lt: "current_piece_count t < N"
      and pp: "place_piece env N t = Some (Inr (), t')"
    note eff = place_piece_effect(1,2) [OF ff pp]
    show "?Inv t'" using eff inv by auto
  qed
  with run show ?thesis by (auto simp: staged_def)
qed

lemma grab_piece_staged:
  assumes ff: "fault_free env" and st: "staged s"
    and run: "grab_piece env s = Some (Inr (), s')"
  shows "staged s'"
proof (cases "current_piece_count s = 0")
  case True
  with run have "s' = s" by (simp add: grab_piece_def)
  with st show ?thesis by simp
next
  case False
  note eff = grab_piece_effect(1,2) [OF ff False run]
  show ?thesis using eff st False by (auto simp: staged_def split: if_splits)
qed

lemma session_staged:
  assumes ff: "fault_free env"
  shows "staged s \<Longrightarrow> session env ops s = Some (Inr (), s') \<Longrightarrow> staged s'"
proof (induction ops arbitrary: s)
  case Nil
  then show ?case by (simp add: session_def)
next
  case (Cons op ops)
  from Cons.prems(2) obtain s1 where
    first: "perform env op s = Some (Inr (), s1)" and
    rest: "session env ops s1 = Some (Inr (), s')"
    by (auto simp: session_def split: option.splits sum.splits)
  have "staged s1"
  proof (cases op)
    case (Load n)
    with first show ?thesis using set_up_game_staged [OF ff Cons.prems(1)] by simp
  next
    case Grab
    with first show ?thesis using grab_piece_staged [OF ff Cons.prems(1)] by simp
  qed
  from Cons.IH [OF this rest] show ?case .
qed

text \<open>
  C6. In one pass of the loading loop the only locked block moves the arm to index 0
  when nothing is staged and to index 1 otherwise, before the gripper opens. In
  \<^verbatim>\<open>grab_piece\<close> the only locked block moves the arm to index 0 when exactly one piece is
  staged and to index 1 otherwise, before the gripper closes. Between operations of a
  session that returned, on a driver that never fails, pieces are left only while at
  least one is staged, so the slot a grab goes to (0 with one staged, 1 with two or
  more) has an index below the stack count.
\<close>

theorem slot_selection:
  assumes ff: "fault_free env"
    and run: "session env ops (fresh cid) = Some (Inr (), s)"
  shows "(\<exists>t' pre post.
            place_piece env piece_count t = Some (Inr (), t') \<and>
            trace t' = trace t @ pre @
              [Acquire,
               Call (Move_pose (if current_stack_count t = 0 then Index0_pos else Index1_pos)) None,
               Stack_step (current_stack_count t + 1),
               Call Release_with_tool None, Call (Move_pose Better_home_pos) None,
               Release] @ post \<and>
            Acquire \<notin> set pre \<and> Acquire \<notin> set post) \<and>
         (if current_piece_count s = 0 then grab_piece env s = Some (Inr (), s)
          else 1 \<le> current_stack_count s \<and>
            (\<exists>s' post.
               grab_piece env s = Some (Inr (), s') \<and>
               trace s' = trace s @
                 [Acquire,
                  Call (Move_pose (if current_stack_count s = 1 then Index0_pos else Index1_pos)) None,
                  Call Grasp_with_tool None, Call (Move_pose Better_home_pos) None,
                  Stack_step (current_stack_count s - 1), Release] @ post \<and>
               Acquire \<notin> set post))"
proof -
  from place_piece_ok [OF ff, of piece_count t] obtain t' where
    pp: "place_piece env piece_count t = Some (Inr (), t')" and
    tr: "trace t' = trace t @ placement_events piece_count t" by blast
  let ?pre = "[Call (Move_pose Mag_pos_bef) None, Call (Set_arm_max_velocity 30) None,
      Call (Move_pose Mag_pos) None, Call Grasp_with_tool None,
      Call (Move_pose Mag_pos_bef) None, Call (Set_arm_max_velocity 100) None,
      Call (Move_pose Better_home_pos) None] @
     (if board_calibrated t then [] else calibration_events)"
  let ?post = "if current_stack_count t + 1 = 2 \<and> current_piece_count t + 1 \<noteq> piece_count
      then [Stack_assign 0, Start_thread BACKWARD] else []"
  have "trace t' = trace t @ ?pre @
              [Acquire,
               Call (Move_pose (if current_stack_count t = 0 then Index0_pos else Index1_pos)) None,
               Stack_step (current_stack_count t + 1),
               Call Release_with_tool None, Call (Move_pose Better_home_pos) None,
               Release] @ ?post"
    using tr by (simp add: placement_events_def)
  moreover have "Acquire \<notin> set ?pre" "Acquire \<notin> set ?post"
    by (simp_all add: calibration_events_def)
  ultimately have load: "\<exists>t' pre post.
            place_piece env piece_count t = Some (Inr (), t') \<and>
            trace t' = trace t @ pre @
              [Acquire,
               Call (Move_pose (if current_stack_count t = 0 then Index0_pos else Index1_pos)) None,
               Stack_step (current_stack_count t + 1),
               Call Release_with_tool None, Call (Move_pose Better_home_pos) None,
               Release] @ post \<and>
            Acquire \<notin> set pre \<and> Acquire \<notin> set post"
    using pp by blast
  have st: "staged s" using session_staged [OF ff staged_fresh run] .
  show ?thesis
  proof (cases "current_piece_count s = 0")
    case True
    then have "grab_piece env s = Some (Inr (), s)" by (simp add: grab_piece_def)
    with load True show ?thesis by simp
  next
    case False
    from grab_piece_ok [OF ff False] obtain s' where
      g: "grab_piece env s = Some (Inr (), s')" and
      gt: "trace s' = trace s @ grab_events s" by blast
    let ?gpost = "if current_stack_count s - 1 = 0 \<and> current_piece_count s - 1 \<noteq> 0
      then [Stack_assign 2, Start_thread FORWARD] else []"
    have "trace s' = trace s @
                 [Acquire,
                  Call (Move_pose (if current_stack_count s = 1 then Index0_pos else Index1_pos)) None,
                  Call Grasp_with_tool None, Call (Move_pose Better_home_pos) None,
                  Stack_step (current_stack_count s - 1), Release] @ ?gpost"
      using gt by (simp add: grab_events_def)
    moreover have "Acquire \<notin> set ?gpost" by simp
    ultimately have grab: "\<exists>s' post.
               grab_piece env s = Some (Inr (), s') \<and>
               trace s' = trace s @
                 [Acquire,
                  Call (Move_pose (if current_stack_count s = 1 then Index0_pos else Index1_pos)) None,
                  Call Grasp_with_tool None, Call (Move_pose Better_home_pos) None,
                  Stack_step (current_stack_count s - 1), Release] @ post \<and>
               Acquire \<notin> set post"
      using g by blast
    have "1 \<le> current_stack_count s"
      using st False by (auto simp: staged_def split: if_splits)
    with load grab False show ?thesis by simp
  qed
qed

theorem slot_selection_witness:
  "fault_free always_ok \<and>
   (\<exists>s. session always_ok [Load 3] (fresh 0) = Some (Inr (), s) \<and>
      current_piece_count s = 3 \<and> current_stack_count s = 1 \<and>
      (\<exists>s' post.
         grab_piece always_ok s = Some (Inr (), s') \<and>
         trace s' = trace s @
           [Acquire, Call (Move_pose Index0_pos) None,
            Call Grasp_with_tool None, Call (Move_pose Better_home_pos) None,
            Stack_step 0, Release] @ post \<and>
         Acquire \<notin> set post))"
proof -
  have "(0::int) \<le> 3" "current_piece_count (fresh 0) = 0" "current_stack_count (fresh 0) = 0"
    by (simp_all add: fresh_def)
  from load_from_empty [OF fault_free_always_ok this] obtain s where
    l: "set_up_game always_ok 3 (fresh 0) = Some (Inr (), s)" and
    c: "current_piece_count s = 3" "current_stack_count s = 1" by auto
  have run: "session always_ok [Load 3] (fresh 0) = Some (Inr (), s)"
    using l by (simp add: session_def)
  from slot_selection [OF fault_free_always_ok run, of 3 s] c
  have "\<exists>s' post.
         grab_piece always_ok s = Some (Inr (), s') \<and>
         trace s' = trace s @
           [Acquire, Call (Move_pose Index0_pos) None,
            Call Grasp_with_tool None, Call (Move_pose Better_home_pos) None,
            Stack_step 0, Release] @ post \<and>
         Acquire \<notin> set post"
    by simp
  with run c fault_free_always_ok show ?thesis by blast
qed

section \<open>Recovery of the gripper\<close>

lemma tool_state_loop_clear: "tool_state_loop env 0 s = Some (Inr (), s)"
  by (subst tool_state_loop.simps) simp

text \<open>
  Entered with a non-zero status, the loop reinitializes once, then once more for each of
  the next \<open>k\<close> reads that are non-zero, and ends at the first read that is zero or has
  no index 7.
\<close>

lemma tool_state_loop_recovers:
  assumes ok: "always_succeeds env"
  shows "tool_state \<noteq> 0 \<Longrightarrow>
     (\<forall>i<k. 7 < length (hw env (nreads s + i)) \<and> hw env (nreads s + i) ! 7 \<noteq> 0) \<Longrightarrow>
     length (hw env (nreads s + k)) \<le> 7 \<or> hw env (nreads s + k) ! 7 = 0 \<Longrightarrow>
     tool_state_loop env tool_state s =
       Some (if length (hw env (nreads s + k)) \<le> 7 then Inl IndexError else Inr (),
         s\<lparr>trace := trace s @ replicate (Suc k) (Call Update_tool None),
            logs := logs s @ replicate (Suc k) Warning,
            ncalls := ncalls s + Suc k, nreads := nreads s + Suc k\<rparr>)"
proof (induction k arbitrary: tool_state s)
  case 0
  then show ?case using ok
    by (subst tool_state_loop.simps)
      (auto simp: logger_def exec_ok read_tool_state_def tool_state_loop_clear)
next
  case (Suc k)
  let ?s1 = "s\<lparr>trace := trace s @ [Call Update_tool None], logs := logs s @ [Warning],
                ncalls := Suc (ncalls s), nreads := Suc (nreads s)\<rparr>"
  from Suc.prems(2) have first: "7 < length (hw env (nreads s))" "hw env (nreads s) ! 7 \<noteq> 0"
    by (metis add.right_neutral zero_less_Suc)+
  have rest: "\<forall>i<k. 7 < length (hw env (nreads ?s1 + i)) \<and> hw env (nreads ?s1 + i) ! 7 \<noteq> 0"
  proof (intro allI impI)
    fix i assume "i < k"
    then have "Suc i < Suc k" by simp
    with Suc.prems(2)
    have "7 < length (hw env (nreads s + Suc i)) \<and> hw env (nreads s + Suc i) ! 7 \<noteq> 0"
      by blast
    then show "7 < length (hw env (nreads ?s1 + i)) \<and> hw env (nreads ?s1 + i) ! 7 \<noteq> 0"
      by simp
  qed
  have last: "length (hw env (nreads ?s1 + k)) \<le> 7 \<or> hw env (nreads ?s1 + k) ! 7 = 0"
    using Suc.prems(3) by simp
  have step: "s\<lparr>logs := logs s @ [Warning], trace := trace s @ [Call Update_tool None],
                  ncalls := Suc (ncalls s), nreads := Suc (nreads s)\<rparr> = ?s1"
    by simp
  have "tool_state_loop env tool_state s = tool_state_loop env (hw env (nreads s) ! 7) ?s1"
    using Suc.prems(1) first ok
    by (subst tool_state_loop.simps)
      (simp add: logger_def exec_ok read_tool_state_def step del: robot.simps)
  also have "\<dots> =
       Some (if length (hw env (nreads ?s1 + k)) \<le> 7 then Inl IndexError else Inr (),
         ?s1\<lparr>trace := trace ?s1 @ replicate (Suc k) (Call Update_tool None),
            logs := logs ?s1 @ replicate (Suc k) Warning,
            ncalls := ncalls ?s1 + Suc k, nreads := nreads ?s1 + Suc k\<rparr>)"
    using Suc.IH [OF first(2) rest last] .
  finally show ?case by (simp add: replicate_append_same)
qed

text \<open>
  C8. Before the grip action the controller reads the status slot. With the next \<open>k\<close>
  reads non-zero and the read after them zero or without an index 7, it reinitializes
  the tool exactly \<open>k\<close> times (one warning each) and then issues the grip action; with
  \<open>k = 0\<close> and no index 7 the check is skipped with an info log and only the grip action
  is issued.
\<close>

theorem control_gripper_reinitializes:
  assumes ok: "always_succeeds env"
    and nonzero: "\<forall>i<k. 7 < length (hw env (nreads s + i)) \<and> hw env (nreads s + i) ! 7 \<noteq> 0"
    and clear: "length (hw env (nreads s + k)) \<le> 7 \<or> hw env (nreads s + k) ! 7 = 0"
  shows "control_gripper env action s =
    Some (Inr (),
      s\<lparr>trace := trace s @ replicate k (Call Update_tool None) @
           [Call (if action = OPEN then Release_with_tool else Grasp_with_tool) None],
         logs := logs s @ replicate k Warning @
           (if length (hw env (nreads s + k)) \<le> 7 then [Info] else []),
         ncalls := ncalls s + k + 1, nreads := nreads s + k + 1\<rparr>)"
proof (cases k)
  case 0
  with clear have c: "length (hw env (nreads s)) \<le> 7 \<or> hw env (nreads s) ! 7 = 0" by simp
  show ?thesis
  proof (cases "length (hw env (nreads s)) \<le> 7")
    case True
    then show ?thesis using ok 0
      by (simp add: control_gripper_def except_IndexError_def bindM_def read_tool_state_def
          logger_def exec_ok)
  next
    case False
    with c have "hw env (nreads s) ! 7 = 0" by simp
    then show ?thesis using ok 0 False
      by (simp add: control_gripper_def except_IndexError_def bindM_def read_tool_state_def
          tool_state_loop_clear exec_ok)
  qed
next
  case (Suc j)
  let ?s1 = "s\<lparr>nreads := Suc (nreads s)\<rparr>"
  from nonzero Suc have first: "7 < length (hw env (nreads s))" "hw env (nreads s) ! 7 \<noteq> 0"
    by (metis add.right_neutral zero_less_Suc)+
  have rest: "\<forall>i<j. 7 < length (hw env (nreads ?s1 + i)) \<and> hw env (nreads ?s1 + i) ! 7 \<noteq> 0"
  proof (intro allI impI)
    fix i assume "i < j"
    then have "Suc i < k" using Suc by simp
    with nonzero
    have "7 < length (hw env (nreads s + Suc i)) \<and> hw env (nreads s + Suc i) ! 7 \<noteq> 0"
      by blast
    then show "7 < length (hw env (nreads ?s1 + i)) \<and> hw env (nreads ?s1 + i) ! 7 \<noteq> 0"
      by simp
  qed
  have last: "length (hw env (nreads ?s1 + j)) \<le> 7 \<or> hw env (nreads ?s1 + j) ! 7 = 0"
    using clear Suc by simp
  note loop = tool_state_loop_recovers [OF ok first(2) rest last]
  have rd: "read_tool_state env s = Some (Inr (hw env (nreads s) ! 7), ?s1)"
    using first by (simp add: read_tool_state_def)
  show ?thesis
  proof (cases "length (hw env (nreads s + k)) \<le> 7")
    case True
    then show ?thesis using ok Suc rd loop
      by (simp add: control_gripper_def except_IndexError_def bindM_def logger_def exec_ok
          replicate_append_same)
  next
    case False
    then show ?thesis using ok Suc rd loop
      by (simp add: control_gripper_def except_IndexError_def bindM_def logger_def exec_ok
          replicate_append_same)
  qed
qed

theorem control_gripper_reinitializes_witness:
  "always_succeeds overheated \<and>
   hw overheated 0 ! 7 = 5 \<and> hw overheated 1 ! 7 = 5 \<and> hw overheated 2 ! 7 = 0 \<and>
   control_gripper overheated CLOSE (fresh 0) =
     Some (Inr (),
       (fresh 0)\<lparr>trace := [Call Update_tool None, Call Update_tool None,
                            Call Grasp_with_tool None],
                  logs := [Warning, Warning], ncalls := 3, nreads := 3\<rparr>)"
proof -
  have ok: "always_succeeds overheated"
    by (simp add: always_succeeds_def overheated_def)
  have nz: "\<forall>i<2. 7 < length (hw overheated (nreads (fresh 0) + i)) \<and>
              hw overheated (nreads (fresh 0) + i) ! 7 \<noteq> 0"
    by (simp add: overheated_def fresh_def)
  have cl: "length (hw overheated (nreads (fresh 0) + 2)) \<le> 7 \<or>
            hw overheated (nreads (fresh 0) + 2) ! 7 = 0"
    by (simp add: overheated_def fresh_def)
  from control_gripper_reinitializes [OF ok nz cl, of CLOSE]
  have "control_gripper overheated CLOSE (fresh 0) =
     Some (Inr (),
       (fresh 0)\<lparr>trace := [Call Update_tool None, Call Update_tool None,
                            Call Grasp_with_tool None],
                  logs := [Warning, Warning], ncalls := 3, nreads := 3\<rparr>)"
    by (simp add: overheated_def fresh_def numeral_2_eq_2)
  moreover have "hw overheated 0 ! 7 = 5" "hw overheated 1 ! 7 = 5" "hw overheated 2 ! 7 = 0"
    by (simp_all add: overheated_def)
  ultimately show ?thesis using ok by blast
qed

section \<open>The slow-mode block\<close>

text \<open>
  What a returning call of the executor did last: the capability returned and that is the
  last event, or it raised an exception that is not the timeout.
\<close>

lemma execute_robot_action_last:
  assumes run: "execute_robot_action env a s = Some y"
  shows "case fst y of
           Inr v \<Rightarrow> (\<exists>tr. trace (snd y) = tr @ [Call a None])
         | Inl e \<Rightarrow> e \<noteq> RosTimeoutError \<and> (\<exists>n. drv env n a = Raises e)"
proof (rule execute_robot_action.raw_induct
    [where P = "\<lambda>env a s y. case fst y of
           Inr v \<Rightarrow> (\<exists>tr. trace (snd y) = tr @ [Call a None])
         | Inl e \<Rightarrow> e \<noteq> RosTimeoutError \<and> (\<exists>n. drv env n a = Raises e)", OF _ run])
  fix exe env a s y
  assume IH: "\<And>env a s y. exe env a s = Some y \<Longrightarrow>
      (case fst y of
           Inr v \<Rightarrow> (\<exists>tr. trace (snd y) = tr @ [Call a None])
         | Inl e \<Rightarrow> e \<noteq> RosTimeoutError \<and> (\<exists>n. drv env n a = Raises e))"
    and body: "(case drv env (ncalls s) a of
        Returns v \<Rightarrow>
          Some (Inr v, s\<lparr>trace := trace s @ [Call a None], ncalls := Suc (ncalls s)\<rparr>)
      | Raises e \<Rightarrow>
          (if e = TypeError then
             Some (Inl e, s\<lparr>trace := trace s @ [Call a (Some e)], ncalls := Suc (ncalls s),
                              logs := logs s @ [Critical]\<rparr>)
           else if e = RosTimeoutError then
             exe env a
               (s\<lparr>trace := trace s @ [Call a (Some e)], ncalls := Suc (ncalls s),
                   logs := logs s @ [Warning]\<rparr>)
           else
             Some (Inl e, s\<lparr>trace := trace s @ [Call a (Some e)], ncalls := Suc (ncalls s)\<rparr>))) =
      Some y"
  show "case fst y of
           Inr v \<Rightarrow> (\<exists>tr. trace (snd y) = tr @ [Call a None])
         | Inl e \<Rightarrow> e \<noteq> RosTimeoutError \<and> (\<exists>n. drv env n a = Raises e)"
  proof (cases "drv env (ncalls s) a")
    case (Returns v)
    with body show ?thesis by auto
  next
    case (Raises e)
    show ?thesis
    proof (cases "e = RosTimeoutError")
      case True
      with body Raises IH show ?thesis by simp
    next
      case False
      with body Raises show ?thesis by (auto split: if_splits)
    qed
  qed
qed

lemma exec_velocity_returns:
  assumes rel: "velocity_reliable env"
    and run: "exec env (Set_arm_max_velocity v) s = Some (r, s')"
  shows "r = Inr () \<and> (\<exists>tr. trace s' = tr @ [Call (Set_arm_max_velocity v) None])"
proof -
  from run obtain y where
    e: "execute_robot_action env (Set_arm_max_velocity v) s = Some y"
    by (auto simp: exec_def bindM_def split: option.splits)
  note last = execute_robot_action_last [OF e]
  show ?thesis
  proof (cases "fst y")
    case (Inl x)
    with last have "x \<noteq> RosTimeoutError" "\<exists>n. drv env n (Set_arm_max_velocity v) = Raises x"
      by simp_all
    with rel show ?thesis by (auto simp: velocity_reliable_def)
  next
    case (Inr x)
    with last obtain tr where "trace (snd y) = tr @ [Call (Set_arm_max_velocity v) None]"
      by auto
    moreover have "r = Inr ()" "s' = snd y"
      using run e Inr by (cases y; auto simp: exec_def bindM_def ok_def)+
    ultimately show ?thesis by auto
  qed
qed

text \<open>
  C9. When the block returns at all, on a driver that does not refuse the velocity
  command, the velocity was set to the slow value and acknowledged right before the
  body ran; whatever the body did (returned, or raised any exception \<open>r\<close>, a
  \<^verbatim>\<open>TypeError\<close> included), the command that sets the velocity to 100 ran after it and was
  acknowledged as the last event of the block, and the body's result is the block's.
\<close>

theorem slow_arm_control_restores:
  assumes rel: "velocity_reliable env"
    and run: "slow_arm_control env slow_speed body s = Some (r, s')"
  shows "\<exists>s1 s2 tr1 tr2.
     exec env (Set_arm_max_velocity slow_speed) s = Some (Inr (), s1) \<and>
     trace s1 = tr1 @ [Call (Set_arm_max_velocity slow_speed) None] \<and>
     body s1 = Some (r, s2) \<and>
     exec env (Set_arm_max_velocity 100) s2 = Some (Inr (), s') \<and>
     trace s' = tr2 @ [Call (Set_arm_max_velocity 100) None]"
proof -
  from run obtain r1 s1 where
    e1: "exec env (Set_arm_max_velocity slow_speed) s = Some (r1, s1)"
    by (auto simp: slow_arm_control_def split: option.splits)
  from exec_velocity_returns [OF rel e1] obtain tr1 where
    r1: "r1 = Inr ()" and t1: "trace s1 = tr1 @ [Call (Set_arm_max_velocity slow_speed) None]"
    by auto
  from run e1 r1 obtain rb s2 where
    b: "body s1 = Some (rb, s2)"
    by (auto simp: slow_arm_control_def split: option.splits)
  from run e1 r1 b obtain r3 s3 where
    e3: "exec env (Set_arm_max_velocity 100) s2 = Some (r3, s3)"
    by (auto simp: slow_arm_control_def split: option.splits)
  from exec_velocity_returns [OF rel e3] obtain tr2 where
    r3: "r3 = Inr ()" and t3: "trace s3 = tr2 @ [Call (Set_arm_max_velocity 100) None]"
    by auto
  from run e1 r1 b e3 r3 have "r = rb" "s' = s3"
    by (simp_all add: slow_arm_control_def)
  with e1 r1 t1 b e3 r3 t3 show ?thesis by blast
qed

lemma velocity_reliable_always_ok: "velocity_reliable always_ok"
  by (simp add: velocity_reliable_def always_ok_def)

lemma slow_arm_control_raise:
  "slow_arm_control always_ok 30 (raise TypeError) (fresh 0) =
     Some (Inl TypeError,
       (fresh 0)\<lparr>trace := [Call (Set_arm_max_velocity 30) None,
                            Call (Set_arm_max_velocity 100) None],
                  ncalls := 2\<rparr>)"
proof -
  have "always_succeeds always_ok" using fault_free_always_ok by (simp add: fault_free_def)
  then show ?thesis
    by (simp add: slow_arm_control_def exec_ok raise_def fresh_def)
qed

theorem slow_arm_control_restores_witness:
  "velocity_reliable always_ok \<and>
   slow_arm_control always_ok 30 (raise TypeError) (fresh 0) =
     Some (Inl TypeError,
       (fresh 0)\<lparr>trace := [Call (Set_arm_max_velocity 30) None,
                            Call (Set_arm_max_velocity 100) None],
                  ncalls := 2\<rparr>) \<and>
   (\<exists>s1 s2 tr1 tr2.
     exec always_ok (Set_arm_max_velocity 30) (fresh 0) = Some (Inr (), s1) \<and>
     trace s1 = tr1 @ [Call (Set_arm_max_velocity 30) None] \<and>
     raise TypeError s1 = Some (Inl TypeError, s2) \<and>
     exec always_ok (Set_arm_max_velocity 100) s2 =
       Some (Inr (),
         (fresh 0)\<lparr>trace := [Call (Set_arm_max_velocity 30) None,
                              Call (Set_arm_max_velocity 100) None],
                    ncalls := 2\<rparr>) \<and>
     [Call (Set_arm_max_velocity 30) None, Call (Set_arm_max_velocity 100) None] =
       tr2 @ [Call (Set_arm_max_velocity 100) None])"
  using slow_arm_control_restores [OF velocity_reliable_always_ok slow_arm_control_raise]
    velocity_reliable_always_ok slow_arm_control_raise
  by simp

section \<open>The belt lock\<close>

lemma held_after_append: "held_after h (xs @ ys) = held_after (held_after h xs) ys"
  by (induction xs arbitrary: h) auto

lemma locked_at_append:
  "locked_at P w h (xs @ ys) \<longleftrightarrow> locked_at P w h xs \<and> locked_at P w (held_after h xs) ys"
  by (induction xs arbitrary: h) auto

lemma disciplined_append: "disciplined xs \<Longrightarrow> disciplined ys \<Longrightarrow> disciplined (xs @ ys)"
  by (simp add: disciplined_def locked_at_append held_after_append)

lemma disciplined_placement_events: "disciplined (placement_events N t)"
  by (simp add: disciplined_def placement_events_def calibration_events_def)

lemma disciplined_grab_events: "disciplined (grab_events t)"
  by (simp add: disciplined_def grab_events_def)

lemma set_up_game_disciplined:
  assumes ff: "fault_free env" and d: "disciplined (trace s)"
    and run: "set_up_game env N s = Some (Inr (), s')"
  shows "disciplined (trace s')"
proof -
  have le: "current_piece_count s \<le> N"
    using set_up_game_terminates_iff_aux(2) [OF ff, of N s] run by auto
  have "\<exists>s'. set_up_game env N s = Some (Inr (), s') \<and> disciplined (trace s') \<and>
     current_piece_count s' = N"
  proof (rule set_up_game_invariant [OF ff le])
    fix s0
    assume "trace s0 = trace s @
         (if magazine_ready s then []
          else [Call (Move_pose Mag_pos_bef) None, Call (Move_pose Mag_pos) None, Prompt,
                Call (Move_pose Better_home_pos) None])"
    moreover have "disciplined (if magazine_ready s then []
          else [Call (Move_pose Mag_pos_bef) None, Call (Move_pose Mag_pos) None, Prompt,
                Call (Move_pose Better_home_pos) None])"
      by (simp add: disciplined_def)
    ultimately show "disciplined (trace s0)" using d by (simp add: disciplined_append)
  next
    fix t t'
    assume inv: "disciplined (trace t)"
      and pp: "place_piece env N t = Some (Inr (), t')"
    from place_piece_effect(3) [OF ff pp] inv show "disciplined (trace t')"
      by (simp add: disciplined_append disciplined_placement_events)
  qed
  with run show ?thesis by auto
qed

lemma grab_piece_disciplined:
  assumes ff: "fault_free env" and d: "disciplined (trace s)"
    and run: "grab_piece env s = Some (Inr (), s')"
  shows "disciplined (trace s')"
proof (cases "current_piece_count s = 0")
  case True
  with run have "s' = s" by (simp add: grab_piece_def)
  with d show ?thesis by simp
next
  case False
  from grab_piece_effect(3) [OF ff False run] d show ?thesis
    by (simp add: disciplined_append disciplined_grab_events)
qed

lemma session_disciplined:
  assumes ff: "fault_free env"
  shows "disciplined (trace s) \<Longrightarrow> session env ops s = Some (Inr (), s') \<Longrightarrow>
         disciplined (trace s')"
proof (induction ops arbitrary: s)
  case Nil
  then show ?case by (simp add: session_def)
next
  case (Cons op ops)
  from Cons.prems(2) obtain s1 where
    first: "perform env op s = Some (Inr (), s1)" and
    rest: "session env ops s1 = Some (Inr (), s')"
    by (auto simp: session_def split: option.splits sum.splits)
  have "disciplined (trace s1)"
  proof (cases op)
    case (Load n)
    with first show ?thesis using set_up_game_disciplined [OF ff Cons.prems(1)] by simp
  next
    case Grab
    with first show ?thesis using grab_piece_disciplined [OF ff Cons.prems(1)] by simp
  qed
  from Cons.IH [OF this rest] show ?case .
qed

lemma set_up_game_three_not_under_lock:
  assumes ff: "fault_free env"
  shows "\<not> all_under_lock (events (set_up_game env 3 (fresh cid)))"
proof -
  let ?Inv = "\<lambda>t. (current_piece_count t < 2 \<and> current_stack_count t = current_piece_count t \<and>
                   \<not> held_after False (trace t)) \<or>
                  (2 \<le> current_piece_count t \<and> \<not> locked_at assigns_stack True False (trace t))"
  have le: "current_piece_count (fresh cid) \<le> 3" by (simp add: fresh_def)
  have "\<exists>s'. set_up_game env 3 (fresh cid) = Some (Inr (), s') \<and> ?Inv s' \<and>
     current_piece_count s' = 3"
  proof (rule set_up_game_invariant [OF ff le])
    fix s0
    assume "current_piece_count s0 = current_piece_count (fresh cid)"
      "current_stack_count s0 = current_stack_count (fresh cid)"
      "trace s0 = trace (fresh cid) @
         (if magazine_ready (fresh cid) then []
          else [Call (Move_pose Mag_pos_bef) None, Call (Move_pose Mag_pos) None, Prompt,
                Call (Move_pose Better_home_pos) None])"
    then show "?Inv s0" by (simp add: fresh_def)
  next
    fix t t'
    assume inv: "?Inv t" and lt: "current_piece_count t < 3"
      and pp: "place_piece env 3 t = Some (Inr (), t')"
    note eff = place_piece_effect [OF ff pp]
    from inv show "?Inv t'"
    proof
      assume a: "current_piece_count t < 2 \<and> current_stack_count t = current_piece_count t \<and>
                 \<not> held_after False (trace t)"
      show ?thesis
      proof (cases "current_piece_count t = 1")
        case True
        with a eff show ?thesis
          by (simp add: locked_at_append placement_events_def calibration_events_def)
      next
        case False
        with a eff show ?thesis
          by (simp add: held_after_append placement_events_def calibration_events_def)
      qed
    next
      assume "2 \<le> current_piece_count t \<and> \<not> locked_at assigns_stack True False (trace t)"
      with eff show ?thesis by (simp add: locked_at_append)
    qed
  qed
  then show ?thesis by (auto simp: all_under_lock_def)
qed

text \<open>
  C4, as stated, fails: loading three pieces resets the stack count to 0 after the lock
  has been released, so not every write of the stack count happens under the lock.
\<close>

theorem belt_lock_counterexample:
  "\<not> all_under_lock (events (set_up_game always_ok 3 (fresh 0)))"
  using fault_free_always_ok by (rule set_up_game_three_not_under_lock)

text \<open>
  C4, amended. The belt thread holds the lock from before the conveyor is started until
  after it is stopped, the wait included. In every session of loads and grabs the
  \<^verbatim>\<open>+= 1\<close> and \<^verbatim>\<open>-= 1\<close> on the stack count happen under the lock, the assignments that
  reset it to 0 or 2 happen after the lock has been released, and no operation returns
  with the lock held.
\<close>

theorem belt_lock_discipline:
  assumes ff: "fault_free env"
    and run: "session env ops (fresh cid) = Some (Inr (), s)"
  shows "disciplined (trace s) \<and>
    (\<exists>t'. move_pieces_on_belt env direction t = Some (Inr (), t') \<and>
       trace t' = trace t @
         [Acquire, Call (Run_conveyor (conveyor_id t) 25 direction) None, Sleep 2500,
          Call (Stop_conveyor (conveyor_id t)) None, Release])"
proof -
  have "disciplined (trace (fresh cid))" by (simp add: disciplined_def fresh_def)
  from session_disciplined [OF ff this run] have "disciplined (trace s)" .
  moreover from ff have "always_succeeds env" by (simp add: fault_free_def)
  from move_pieces_on_belt_ok [OF this, of direction t]
  have "\<exists>t'. move_pieces_on_belt env direction t = Some (Inr (), t') \<and>
       trace t' = trace t @
         [Acquire, Call (Run_conveyor (conveyor_id t) 25 direction) None, Sleep 2500,
          Call (Stop_conveyor (conveyor_id t)) None, Release]" by blast
  ultimately show ?thesis by blast
qed

theorem belt_lock_discipline_witness:
  "fault_free always_ok \<and>
   (\<exists>s. session always_ok [Load 3, Grab] (fresh 0) = Some (Inr (), s) \<and>
      current_stack_count s = 2 \<and> disciplined (trace s)) \<and>
   (\<exists>t'. move_pieces_on_belt always_ok BACKWARD (fresh 0) = Some (Inr (), t') \<and>
      trace t' =
        [Acquire, Call (Run_conveyor 0 25 BACKWARD) None, Sleep 2500,
         Call (Stop_conveyor 0) None, Release])"
proof -
  have "(0::int) \<le> 3" "current_piece_count (fresh 0) = 0" "current_stack_count (fresh 0) = 0"
    by (simp_all add: fresh_def)
  from load_from_empty [OF fault_free_always_ok this] obtain s1 where
    l: "set_up_game always_ok 3 (fresh 0) = Some (Inr (), s1)" and
    c: "current_piece_count s1 = 3" "current_stack_count s1 = 1" by auto
  have nz: "current_piece_count s1 \<noteq> 0" using c by simp
  from grab_piece_ok [OF fault_free_always_ok nz] c obtain s where
    g: "grab_piece always_ok s1 = Some (Inr (), s)" and
    c2: "current_stack_count s = 2" by auto
  have run: "session always_ok [Load 3, Grab] (fresh 0) = Some (Inr (), s)"
    using l g by (simp add: session_def)
  from belt_lock_discipline [OF fault_free_always_ok run, of BACKWARD "fresh 0"]
  have "disciplined (trace s)" and
    "\<exists>t'. move_pieces_on_belt always_ok BACKWARD (fresh 0) = Some (Inr (), t') \<and>
      trace t' =
        [Acquire, Call (Run_conveyor 0 25 BACKWARD) None, Sleep 2500,
         Call (Stop_conveyor 0) None, Release]"
    by (simp_all add: fresh_def)
  with run c2 fault_free_always_ok show ?thesis by blast
qed

end
